theory Spec2Isabelle
  imports Main "HOL-Library.Word" "HOL-Library.Sublist"
begin

section \<open>netx: the bidirectional copy of copy.go\<close>

text \<open>
  The theory embeds \<^verbatim>\<open>copy.go\<close>: \<^verbatim>\<open>isTimeout\<close>, \<^verbatim>\<open>doCopy\<close> and \<^verbatim>\<open>BidiCopy\<close>.

  A connection (\<^verbatim>\<open>net.Conn\<close>) is an interface whose answers the code cannot predict. One
  goroutine running \<^verbatim>\<open>doCopy\<close> is therefore a function from the answers it is given (what
  the load of the stop flag, the read and the write return in each pass through the loop)
  to the list of calls it makes and the way it ends. \<^verbatim>\<open>BidiCopy\<close> is the machine that runs
  two such goroutines and the caller, one call at a time in any order, on the shared stop
  flag and the two error channels.
\<close>

subsection \<open>Errors\<close>

text \<open>
  A Go \<^verbatim>\<open>error\<close> is an interface value; \<^verbatim>\<open>er == io.EOF\<close> compares identities, while
  \<^verbatim>\<open>err.Error()\<close> gives the message. \<open>EOF\<close> and \<open>ErrShortWrite\<close> are the two values of
  package \<^verbatim>\<open>io\<close> the code names; \<open>Other m\<close> is any other error value with message \<open>m\<close>
  (so \<open>Other ''EOF''\<close> has the message of \<open>EOF\<close> without being it). A possibly nil error is
  an \<open>err option\<close>, \<open>None\<close> being \<^verbatim>\<open>nil\<close>.
\<close>

datatype err = EOF | ErrShortWrite | Other string

fun Error :: "err \<Rightarrow> string" where
  "Error EOF = ''EOF''"
| "Error ErrShortWrite = ''short write''"
| "Error (Other m) = m"

subsection \<open>isTimeout\<close>

definition ioTimeout :: string where
  "ioTimeout = ''i/o timeout''"

definition ioTimeoutLength :: int where
  "ioTimeoutLength = 11"

text \<open>
  The slice expression \<^verbatim>\<open>s[low:]\<close> on a string panics unless \<open>0 \<le> low \<le> len(s)\<close>;
  \<open>None\<close> is the panic.
\<close>

definition slice_from :: "string \<Rightarrow> int \<Rightarrow> string option" where
  "slice_from s low =
     (if 0 \<le> low \<and> low \<le> int (length s) then Some (drop (nat low) s) else None)"

text \<open>
  \<^verbatim>\<open>esl >= ioTimeoutLength && es[esl-ioTimeoutLength:] == ioTimeout\<close>: the slice is taken
  only when the first operand of \<^verbatim>\<open>&&\<close> holds. The result is \<open>None\<close> when the call panics.
\<close>

definition isTimeout :: "err \<Rightarrow> bool option" where
  "isTimeout e =
     (let es = Error e;
          esl = int (length es)
      in if esl \<ge> ioTimeoutLength
         then (case slice_from es (esl - ioTimeoutLength) of
                 None \<Rightarrow> None
               | Some t \<Rightarrow> Some (t = ioTimeout))
         else Some False)"

subsection \<open>What a goroutine does, and what it is answered\<close>

text \<open>
  \<^verbatim>\<open>BidiCopy(out, in, ...)\<close> handles two connections and two error channels.
  \<^verbatim>\<open>time.Duration\<close> is a number of nanoseconds; a deadline \<^verbatim>\<open>time.Now().Add(d)\<close> is
  recorded by its distance \<open>d\<close> from the moment of the call.
\<close>

datatype conn = ConnOut | ConnIn

datatype chan = OutErrCh | InErrCh

type_synonym duration = int

definition copyTimeout :: duration where
  "copyTimeout = 1 * 1000000000"

text \<open>
  The calls of \<^verbatim>\<open>doCopy\<close> that reach beyond its local variables, each with the values it
  is given back: \<open>Read c nr er\<close> is \<^verbatim>\<open>c.Read(buf)\<close> returning \<open>(nr, er)\<close>, and
  \<open>Write c n nw ew\<close> is \<^verbatim>\<open>c.Write(buf[0:n])\<close> returning \<open>(nw, ew)\<close>.
\<close>

datatype action =
    LoadStop "32 word"
  | StoreStop "32 word"
  | SetReadDeadline conn duration
  | SetWriteDeadline conn duration
  | Read conn int "err option"
  | Write conn int int "err option"
  | Send chan "err option"

text \<open>
  The answers given during one pass through the loop: the value the atomic load of
  \<^verbatim>\<open>stop\<close> returns, what \<^verbatim>\<open>src.Read\<close> returns, and what \<^verbatim>\<open>dst.Write\<close> returns if that
  pass calls it.
\<close>

record reply =
  flag :: "32 word"
  rd :: "int \<times> err option"
  wr :: "int \<times> err option"

text \<open>
  How a pass through the loop body ends, with the value of the variable \<^verbatim>\<open>err\<close> at that
  point: at the closing brace of the \<^verbatim>\<open>for\<close> (\<open>Next\<close>), at a \<^verbatim>\<open>return\<close>, or in a panic.
\<close>

datatype flow = Next "err option" | Return "err option" | Panic "err option"

subsection \<open>doCopy\<close>

text \<open>
  Lines 49 to 57, the body of \<^verbatim>\<open>if nr > 0\<close>. \<open>bufcap\<close> is \<^verbatim>\<open>cap(buf)\<close>: the slice
  \<^verbatim>\<open>buf[0:nr]\<close> panics when \<open>nr\<close> exceeds it, after the write deadline has been set.
  \<^verbatim>\<open>if err != nil { err = ew }\<close> tests the variable \<^verbatim>\<open>err\<close>, not \<^verbatim>\<open>ew\<close>.
\<close>

definition write_back ::
  "conn \<Rightarrow> int \<Rightarrow> duration \<Rightarrow> err option \<Rightarrow> int \<Rightarrow> int \<times> err option \<Rightarrow> action list \<times> flow"
where
  "write_back dst bufcap writeTimeout err nr w =
     (if bufcap < nr then ([SetWriteDeadline dst writeTimeout], Panic err)
      else
        let (nw, ew) = w;
            err1 = (if err \<noteq> None then ew else err)
        in ([SetWriteDeadline dst writeTimeout, Write dst nr nw ew],
            if nw \<noteq> nr then Return (Some ErrShortWrite) else Next err1))"

text \<open>Lines 59 to 71, the checks of the read error \<^verbatim>\<open>er\<close>.\<close>

definition check_read_error :: "bool \<Rightarrow> err option \<Rightarrow> err option \<Rightarrow> flow" where
  "check_read_error stopping err er =
     (if er = Some EOF then Return err
      else
        case er of
          None \<Rightarrow> Next err
        | Some e \<Rightarrow>
            (case isTimeout e of
               None \<Rightarrow> Panic err
             | Some True \<Rightarrow> if stopping then Return err else Next err
             | Some False \<Rightarrow> Return (Some e)))"

text \<open>Lines 43 to 71, one pass through the loop body.\<close>

definition iteration ::
  "conn \<Rightarrow> conn \<Rightarrow> int \<Rightarrow> duration \<Rightarrow> err option \<Rightarrow> reply \<Rightarrow> action list \<times> flow"
where
  "iteration dst src bufcap writeTimeout err r =
     (let stopping = (flag r = 1);
          (nr, er) = rd r;
          reading = LoadStop (flag r)
                    # (if stopping then [SetReadDeadline src copyTimeout] else [])
                    @ [Read src nr er]
      in if nr > 0
         then (case write_back dst bufcap writeTimeout err nr (wr r) of
                 (writing, Next err1) \<Rightarrow> (reading @ writing, check_read_error stopping err1 er)
               | (writing, left) \<Rightarrow> (reading @ writing, left))
         else (reading, check_read_error stopping err er))"

text \<open>
  How far a goroutine has come: still in its loop, returned after sending \<^verbatim>\<open>err\<close> on its
  channel, or panicked (its deferred function has run, and the panic ends the process).
\<close>

datatype outcome = Running | Exited "err option" | Crashed "err option"

text \<open>
  The \<^verbatim>\<open>for\<close> loop on a list of answers, one per pass. When the answers run out the
  goroutine is still in the loop: a read that has not returned, or never does.
\<close>

fun loop ::
  "conn \<Rightarrow> conn \<Rightarrow> int \<Rightarrow> duration \<Rightarrow> err option \<Rightarrow> reply list \<Rightarrow> action list \<times> outcome"
where
  "loop dst src bufcap writeTimeout err [] = ([], Running)"
| "loop dst src bufcap writeTimeout err (r # rs) =
     (case iteration dst src bufcap writeTimeout err r of
        (calls, Next err1) \<Rightarrow>
          (let (more, left) = loop dst src bufcap writeTimeout err1 rs
           in (calls @ more, left))
      | (calls, Return err1) \<Rightarrow> (calls, Exited err1)
      | (calls, Panic err1) \<Rightarrow> (calls, Crashed err1))"

text \<open>Lines 36 to 40, the deferred function.\<close>

definition deferred :: "conn \<Rightarrow> chan \<Rightarrow> err option \<Rightarrow> action list" where
  "deferred dst errCh err =
     [StoreStop 1, SetReadDeadline dst copyTimeout, Send errCh err]"

text \<open>
  \<^verbatim>\<open>doCopy(dst, src, buf, writeTimeout, errCh, stop)\<close>: \<^verbatim>\<open>err\<close> starts as nil, and the
  deferred function runs when the loop is left, by \<^verbatim>\<open>return\<close> or by a panic.
\<close>

definition doCopy ::
  "conn \<Rightarrow> conn \<Rightarrow> int \<Rightarrow> duration \<Rightarrow> chan \<Rightarrow> reply list \<Rightarrow> action list \<times> outcome"
where
  "doCopy dst src bufcap writeTimeout errCh rs =
     (case loop dst src bufcap writeTimeout None rs of
        (calls, Running) \<Rightarrow> (calls, Running)
      | (calls, Exited err) \<Rightarrow> (calls @ deferred dst errCh err, Exited err)
      | (calls, Crashed err) \<Rightarrow> (calls @ deferred dst errCh err, Crashed err))"

subsection \<open>BidiCopy\<close>

text \<open>
  The parties of one call of \<^verbatim>\<open>BidiCopy\<close>: the goroutine that copies to \<^verbatim>\<open>out\<close>
  (\<^verbatim>\<open>go doCopy(out, in, bufIn, writeTimeout, outErrCh, &stop)\<close>), the goroutine that copies
  to \<^verbatim>\<open>in\<close>, and the caller, which evaluates \<^verbatim>\<open>return <-outErrCh, <-inErrCh\<close> from left to
  right.
\<close>

datatype who = CopierOut | CopierIn | Caller

datatype caller = RecvOut | RecvIn "err option" | Returned "err option" "err option"

text \<open>
  What the parties share: the word \<^verbatim>\<open>stop\<close>, the two channels (each holds the values sent
  and not yet received; \<^verbatim>\<open>make(chan error, 1)\<close> gives room for one), the calls each
  goroutine still has to make, and where the caller stands.
\<close>

record sys =
  stop :: "32 word"
  outErrCh :: "err option list"
  inErrCh :: "err option list"
  toOut :: "action list"
  toIn :: "action list"
  caller :: caller

text \<open>
  One call of a goroutine on the shared state, \<open>None\<close> when it cannot be made now: an atomic
  load returns the value the flag holds, a send needs room in the channel. The calls on the
  connections leave the shared state as it is; what they return is in the call.
\<close>

fun perform :: "action \<Rightarrow> sys \<Rightarrow> sys option" where
  "perform (LoadStop v) s = (if stop s = v then Some s else None)"
| "perform (StoreStop v) s = Some (s\<lparr>stop := v\<rparr>)"
| "perform (SetReadDeadline c d) s = Some s"
| "perform (SetWriteDeadline c d) s = Some s"
| "perform (Read c nr er) s = Some s"
| "perform (Write c n nw ew) s = Some s"
| "perform (Send OutErrCh e) s =
     (if length (outErrCh s) < 1 then Some (s\<lparr>outErrCh := outErrCh s @ [e]\<rparr>) else None)"
| "perform (Send InErrCh e) s =
     (if length (inErrCh s) < 1 then Some (s\<lparr>inErrCh := inErrCh s @ [e]\<rparr>) else None)"

text \<open>One move of one party, \<open>None\<close> when that party is blocked or has finished.\<close>

fun fire :: "who \<Rightarrow> sys \<Rightarrow> sys option" where
  "fire CopierOut s =
     (case toOut s of [] \<Rightarrow> None | a # rest \<Rightarrow> perform a (s\<lparr>toOut := rest\<rparr>))"
| "fire CopierIn s =
     (case toIn s of [] \<Rightarrow> None | a # rest \<Rightarrow> perform a (s\<lparr>toIn := rest\<rparr>))"
| "fire Caller s =
     (case caller s of
        RecvOut \<Rightarrow>
          (case outErrCh s of
             [] \<Rightarrow> None
           | e # q \<Rightarrow> Some (s\<lparr>outErrCh := q, caller := RecvIn e\<rparr>))
      | RecvIn a \<Rightarrow>
          (case inErrCh s of
             [] \<Rightarrow> None
           | e # q \<Rightarrow> Some (s\<lparr>inErrCh := q, caller := Returned a e\<rparr>))
      | Returned a b \<Rightarrow> None)"

text \<open>
  The states passed through when the parties move in the order of a schedule, \<open>None\<close> when
  the schedule asks a party to move that cannot.
\<close>

fun exec :: "sys \<Rightarrow> who list \<Rightarrow> sys list option" where
  "exec s [] = Some [s]"
| "exec s (w # ws) =
     (case fire w s of
        None \<Rightarrow> None
      | Some s1 \<Rightarrow> (case exec s1 ws of None \<Rightarrow> None | Some ss \<Rightarrow> Some (s # ss)))"

text \<open>
  \<^verbatim>\<open>BidiCopy(out, in, bufOut, bufIn, writeTimeout)\<close> up to its \<^verbatim>\<open>return\<close> statement: the flag
  is 0, the channels are empty, and the two goroutines are started, the one copying to
  \<^verbatim>\<open>out\<close> with \<^verbatim>\<open>bufIn\<close> and the one copying to \<^verbatim>\<open>in\<close> with \<^verbatim>\<open>bufOut\<close>. \<open>capOut\<close> and \<open>capIn\<close>
  are the capacities of the buffers; \<open>answersOut\<close> and \<open>answersIn\<close> are the answers the two
  goroutines are given. A panic of a goroutine ends the process once its deferred function
  has run; the machine lets the other parties go on, which only adds behaviours.
\<close>

definition BidiCopy :: "int \<Rightarrow> int \<Rightarrow> duration \<Rightarrow> reply list \<Rightarrow> reply list \<Rightarrow> sys" where
  "BidiCopy capOut capIn writeTimeout answersOut answersIn =
     \<lparr>stop = 0, outErrCh = [], inErrCh = [],
      toOut = fst (doCopy ConnOut ConnIn capIn writeTimeout OutErrCh answersOut),
      toIn = fst (doCopy ConnIn ConnOut capOut writeTimeout InErrCh answersIn),
      caller = RecvOut\<rparr>"

text \<open>The error a goroutine has sent on its channel when it is no longer in its loop.\<close>

fun reported :: "outcome \<Rightarrow> err option option" where
  "reported Running = None"
| "reported (Exited e) = Some e"
| "reported (Crashed e) = Some e"

text \<open>
  What holds of the machine in every state it can reach, for the proofs below: each
  goroutine has a final part of its calls left to make; a channel holds at most the one
  error its goroutine reported, and then that goroutine has made all its calls; and what the
  caller has received is what the goroutines reported.
\<close>

definition coherent :: "int \<Rightarrow> int \<Rightarrow> duration \<Rightarrow> reply list \<Rightarrow> reply list \<Rightarrow> sys \<Rightarrow> bool" where
  "coherent capOut capIn writeTimeout answersOut answersIn s =
     (let gOut = doCopy ConnOut ConnIn capIn writeTimeout OutErrCh answersOut;
          gIn = doCopy ConnIn ConnOut capOut writeTimeout InErrCh answersIn;
          outDone = (\<lambda>e. reported (snd gOut) = Some e \<and> toOut s = []);
          inDone = (\<lambda>e. reported (snd gIn) = Some e \<and> toIn s = [])
      in suffix (toOut s) (fst gOut) \<and> suffix (toIn s) (fst gIn)
         \<and> (case outErrCh s of [] \<Rightarrow> True | e # q \<Rightarrow> q = [] \<and> outDone e)
         \<and> (case inErrCh s of [] \<Rightarrow> True | e # q \<Rightarrow> q = [] \<and> inDone e)
         \<and> (case caller s of
               RecvOut \<Rightarrow> True
             | RecvIn a \<Rightarrow> outDone a
             | Returned a b \<Rightarrow> outDone a \<and> inDone b))"


section \<open>Properties\<close>

subsection \<open>isTimeout\<close>

lemma drop_eq_suffix:
  assumes "length t \<le> length s"
  shows "(drop (length s - length t) s = t) = suffix t s"
proof
  assume "drop (length s - length t) s = t"
  then show "suffix t s" by (metis suffix_drop)
next
  assume "suffix t s"
  then obtain p where "s = p @ t" by (auto simp: suffix_def)
  then show "drop (length s - length t) s = t" by simp
qed

lemma isTimeout_suffix:
  "isTimeout e = Some (11 \<le> length (Error e) \<and> suffix ''i/o timeout'' (Error e))"
proof (cases "11 \<le> length (Error e)")
  case True
  have "nat (int (length (Error e)) - 11) = length (Error e) - length ''i/o timeout''"
    by simp
  moreover have "length ''i/o timeout'' \<le> length (Error e)"
    using True by simp
  ultimately have
    "(drop (nat (int (length (Error e)) - 11)) (Error e) = ''i/o timeout'')
       = suffix ''i/o timeout'' (Error e)"
    using drop_eq_suffix [of "''i/o timeout''" "Error e"] by simp
  with True show ?thesis
    by (simp add: isTimeout_def slice_from_def ioTimeoutLength_def ioTimeout_def Let_def)
next
  case False
  then show ?thesis
    by (simp add: isTimeout_def ioTimeoutLength_def Let_def)
qed

lemma isTimeout_total: "isTimeout e \<noteq> None"
  by (simp add: isTimeout_suffix)

text \<open>
  C9. \<open>isTimeout\<close> never panics on a non-nil error and answers true exactly when the
  error's message has at least 11 characters and ends with \<open>i/o timeout\<close>; for a message
  of fewer than 11 characters the answer is false.
\<close>

theorem isTimeout_iff:
  "isTimeout e = Some (11 \<le> length (Error e) \<and> suffix ''i/o timeout'' (Error e))
   \<and> (length (Error e) < 11 \<longrightarrow> isTimeout e = Some False)"
  using isTimeout_suffix [of e] by simp

theorem isTimeout_iff_witness:
  "length (Error (Other ''timeout'')) < 11 \<and> isTimeout (Other ''timeout'') = Some False
   \<and> isTimeout (Other ''read tcp 10.0.0.1:443: i/o timeout'') = Some True"
  using isTimeout_iff [of "Other ''timeout''"]
        isTimeout_iff [of "Other ''read tcp 10.0.0.1:443: i/o timeout''"]
  by (simp add: suffix_def)

subsection \<open>One pass through the loop\<close>

lemma check_read_error_None:
  "check_read_error st None er = Next e \<Longrightarrow> e = None"
  "check_read_error st None er = Panic e \<Longrightarrow> e = None"
  by (auto simp: check_read_error_def split: if_splits option.splits bool.splits)

lemma iteration_Next_None:
  "iteration dst src c wt None r = (calls, Next e) \<Longrightarrow> e = None"
  by (auto simp: iteration_def write_back_def Let_def check_read_error_None
      split: prod.splits flow.splits if_splits)

lemma iteration_Write:
  assumes "fst (iteration dst src c wt err r) = p @ Write d n nw ew # q"
  shows "q = [] \<and> d = dst \<and> n = fst (rd r) \<and> wr r = (nw, ew)
         \<and> (nw \<noteq> n \<longrightarrow> snd (iteration dst src c wt err r) = Return (Some ErrShortWrite))"
  using assms
  by (auto simp: iteration_def write_back_def Let_def Cons_eq_append_conv append_eq_Cons_conv
      split: prod.splits flow.splits if_splits)

subsection \<open>Where a call stands in the calls of a goroutine\<close>

lemma call_in_append:
  assumes "p @ a # q = xs @ ys"
  obtains (right) vs where "p = xs @ vs" "ys = vs @ a # q"
    | (left) vs where "xs = p @ a # vs" "q = vs @ ys"
proof -
  from assms obtain us where
    "(p = xs @ us \<and> us @ a # q = ys) \<or> (p @ us = xs \<and> a # q = us @ ys)"
    by (auto simp: append_eq_append_conv2)
  then show ?thesis
  proof (elim disjE conjE)
    assume "p = xs @ us" "us @ a # q = ys"
    then show ?thesis using right by simp
  next
    assume b: "p @ us = xs" "a # q = us @ ys"
    show ?thesis
    proof (cases us)
      case Nil
      with b right [of "[]"] show ?thesis by simp
    next
      case (Cons u vs)
      with b left [of vs] show ?thesis by auto
    qed
  qed
qed

lemma loop_call:
  assumes "loop dst src c wt err rs = (calls, out)" and "calls = p @ a # q"
  obtains e r rs1 p0 p1 q1 fl more where
    "iteration dst src c wt e r = (p1 @ a # q1, fl)" "p = p0 @ p1" "q = q1 @ more"
    "err = None \<longrightarrow> e = None"
    "(case fl of Next e1 \<Rightarrow> loop dst src c wt e1 rs1
       | Return e1 \<Rightarrow> ([], Exited e1) | Panic e1 \<Rightarrow> ([], Crashed e1)) = (more, out)"
  using assms
proof (induction rs arbitrary: err calls p thesis)
  case Nil
  then show ?case by simp
next
  case (Cons r rs)
  obtain ic fl where it: "iteration dst src c wt err r = (ic, fl)"
    by (cases "iteration dst src c wt err r")
  obtain more where more: "(case fl of Next e1 \<Rightarrow> loop dst src c wt e1 rs
       | Return e1 \<Rightarrow> ([], Exited e1) | Panic e1 \<Rightarrow> ([], Crashed e1)) = (more, out)"
      and calls: "calls = ic @ more"
    using Cons.prems(2) it by (cases fl) (auto split: prod.splits)
  from Cons.prems(3) calls have "p @ a # q = ic @ more"
    by simp
  then show ?case
  proof (cases rule: call_in_append)
    case (left vs)
    show ?thesis
    proof (rule Cons.prems(1))
      show "iteration dst src c wt err r = (p @ a # vs, fl)" using it left by simp
      show "p = [] @ p" by simp
      show "q = vs @ more" using left by simp
      show "err = None \<longrightarrow> err = None" by simp
      show "(case fl of Next e1 \<Rightarrow> loop dst src c wt e1 rs
         | Return e1 \<Rightarrow> ([], Exited e1) | Panic e1 \<Rightarrow> ([], Crashed e1)) = (more, out)"
        by (rule more)
    qed
  next
    case (right vs)
    show ?thesis
    proof (cases fl)
      case (Next e1)
      with more have lp: "loop dst src c wt e1 rs = (more, out)"
        by simp
      have e1: "err = None \<longrightarrow> e1 = None"
        using it Next iteration_Next_None by blast
      show ?thesis
      proof (rule Cons.IH [OF _ lp right(2)])
        fix e r' rs1 p0 p1 q1 fl' more'
        assume h: "iteration dst src c wt e r' = (p1 @ a # q1, fl')" "vs = p0 @ p1"
          "q = q1 @ more'" "e1 = None \<longrightarrow> e = None"
          "(case fl' of Next e1 \<Rightarrow> loop dst src c wt e1 rs1
             | Return e1 \<Rightarrow> ([], Exited e1) | Panic e1 \<Rightarrow> ([], Crashed e1)) = (more', out)"
        show thesis
        proof (rule Cons.prems(1))
          show "iteration dst src c wt e r' = (p1 @ a # q1, fl')" by (rule h(1))
          show "p = (ic @ p0) @ p1" using right(1) h(2) by simp
          show "q = q1 @ more'" by (rule h(3))
          show "err = None \<longrightarrow> e = None" using e1 h(4) by simp
          show "(case fl' of Next e1 \<Rightarrow> loop dst src c wt e1 rs1
             | Return e1 \<Rightarrow> ([], Exited e1) | Panic e1 \<Rightarrow> ([], Crashed e1)) = (more', out)"
            by (rule h(5))
        qed
      qed
    next
      case (Return e1)
      with more right show ?thesis by simp
    next
      case (Panic e1)
      with more right show ?thesis by simp
    qed
  qed
qed

lemma loop_Write:
  assumes "loop dst src c wt err rs = (calls, out)" "calls = p @ Write d n nw ew # q" "nw \<noteq> n"
  shows "q = [] \<and> out = Exited (Some ErrShortWrite)"
  using assms(1,2)
proof (cases rule: loop_call)
  case (1 e r rs1 p0 p1 q1 fl more)
  from 1(1) have "fst (iteration dst src c wt e r) = p1 @ Write d n nw ew # q1"
    by simp
  from iteration_Write [OF this] assms(3) 1 show ?thesis
    by auto
qed

lemma doCopy_cases:
  obtains (running) calls where "loop dst src c wt None rs = (calls, Running)"
      "doCopy dst src c wt ch rs = (calls, Running)"
  | (left) calls out e where "loop dst src c wt None rs = (calls, out)"
      "reported out = Some e" "doCopy dst src c wt ch rs = (calls @ deferred dst ch e, out)"
proof (cases "loop dst src c wt None rs")
  case (Pair calls out)
  then show ?thesis
    by (cases out) (auto simp: doCopy_def intro: running left)
qed

lemma doCopy_loop_call:
  assumes "fst (doCopy dst src c wt ch rs) = p @ a # q"
    and "\<And>e. a \<notin> set (deferred dst ch e)"
  obtains q1 where "fst (loop dst src c wt None rs) = p @ a # q1"
      "q = q1 @ drop (length (fst (loop dst src c wt None rs))) (fst (doCopy dst src c wt ch rs))"
proof (cases rule: doCopy_cases [of dst src c wt rs ch])
  case (running lc)
  with assms that [of q] show ?thesis
    by simp
next
  case (left lc lo e)
  with assms(1) have "p @ a # q = lc @ deferred dst ch e"
    by simp
  then show ?thesis
  proof (cases rule: call_in_append)
    case (right vs)
    then have "a \<in> set (deferred dst ch e)" by simp
    with assms(2) show ?thesis by simp
  next
    case (left vs)
    with \<open>loop dst src c wt None rs = (lc, lo)\<close>
      \<open>doCopy dst src c wt ch rs = (lc @ deferred dst ch e, lo)\<close> that [of vs]
    show ?thesis by simp
  qed
qed

subsection \<open>Short writes\<close>

lemma iteration_Write_before:
  assumes "fst (iteration dst src c wt err r) = p @ Write d n nw ew # q"
  shows "\<exists>p1 er. p = p1 @ [Read src n er, SetWriteDeadline dst wt]"
  using assms
  by (auto simp: iteration_def write_back_def Let_def Cons_eq_append_conv append_eq_Cons_conv
      split: prod.splits flow.splits if_splits)

lemma loop_Write_before:
  assumes "loop dst src c wt err rs = (calls, out)" "calls = p @ Write d n nw ew # q"
  shows "\<exists>p1 er. p = p1 @ [Read src n er, SetWriteDeadline dst wt]"
  using assms(1,2)
proof (cases rule: loop_call)
  case (1 e r rs1 p0 p1 q1 fl more)
  from 1(1) have "fst (iteration dst src c wt e r) = p1 @ Write d n nw ew # q1"
    by simp
  from iteration_Write_before [OF this] 1(2) show ?thesis
    by auto
qed

lemma not_deferred [simp]:
  "LoadStop v \<notin> set (deferred dst ch e)" "Read s nr er \<notin> set (deferred dst ch e)"
  "Write d n nw ew \<notin> set (deferred dst ch e)"
  by (simp_all add: deferred_def)

text \<open>
  C2. Wherever the calls of \<open>doCopy\<close> contain a write that returned fewer bytes than it
  was given, and it was given the bytes just read, the calls that follow are those of the
  deferred function and nothing else, so the write is not retried and the source is not read
  again, and the goroutine ends with \<open>io.ErrShortWrite\<close>.
\<close>

theorem short_write_terminates:
  assumes "doCopy dst src bufcap writeTimeout errCh answers = (calls, out)"
    and "calls = p @ Write d n nw ew # q"
    and "nw < n"
  shows "q = [StoreStop 1, SetReadDeadline dst copyTimeout, Send errCh (Some ErrShortWrite)]
         \<and> out = Exited (Some ErrShortWrite)
         \<and> (\<exists>p1 er. p = p1 @ [Read src n er, SetWriteDeadline dst writeTimeout])"
proof -
  from assms(1,2) have "fst (doCopy dst src bufcap writeTimeout errCh answers) = p @ Write d n nw ew # q"
    by simp
  then obtain q1 where q1: "fst (loop dst src bufcap writeTimeout None answers) = p @ Write d n nw ew # q1"
    "q = q1 @ drop (length (fst (loop dst src bufcap writeTimeout None answers)))
                   (fst (doCopy dst src bufcap writeTimeout errCh answers))"
    by (rule doCopy_loop_call) simp
  obtain lc lo where lp: "loop dst src bufcap writeTimeout None answers = (lc, lo)"
    by (cases "loop dst src bufcap writeTimeout None answers")
  with q1(1) have lc: "lc = p @ Write d n nw ew # q1" by simp
  from assms(3) have "nw \<noteq> n" by simp
  from loop_Write [OF lp lc this] have "q1 = []" "lo = Exited (Some ErrShortWrite)"
    by simp_all
  with lp q1(2) assms(1) have "q = deferred dst errCh (Some ErrShortWrite)"
    "out = Exited (Some ErrShortWrite)"
    by (auto simp: doCopy_def)
  with loop_Write_before [OF lp lc] show ?thesis
    by (simp add: deferred_def)
qed

theorem short_write_terminates_witness:
  "doCopy ConnOut ConnIn 4096 30000000000 OutErrCh
     [\<lparr>flag = 0, rd = (5, None), wr = (2, None)\<rparr>, \<lparr>flag = 0, rd = (7, None), wr = (7, None)\<rparr>]
   = ([LoadStop 0, Read ConnIn 5 None, SetWriteDeadline ConnOut 30000000000]
        @ Write ConnOut 5 2 None
        # [StoreStop 1, SetReadDeadline ConnOut copyTimeout, Send OutErrCh (Some ErrShortWrite)],
      Exited (Some ErrShortWrite))
   \<and> (2::int) < 5"
proof -
  obtain calls out where d: "doCopy ConnOut ConnIn 4096 30000000000 OutErrCh
     [\<lparr>flag = 0, rd = (5, None), wr = (2, None)\<rparr>, \<lparr>flag = 0, rd = (7, None), wr = (7, None)\<rparr>]
     = (calls, out)"
    by (cases "doCopy ConnOut ConnIn 4096 30000000000 OutErrCh
     [\<lparr>flag = 0, rd = (5, None), wr = (2, None)\<rparr>, \<lparr>flag = 0, rd = (7, None), wr = (7, None)\<rparr>]")
  have "\<exists>q. calls = [LoadStop 0, Read ConnIn 5 None, SetWriteDeadline ConnOut 30000000000]
        @ Write ConnOut 5 2 None # q"
    using d by (auto simp: doCopy_def iteration_def write_back_def Let_def)
  then obtain q where c: "calls = [LoadStop 0, Read ConnIn 5 None, SetWriteDeadline ConnOut 30000000000]
        @ Write ConnOut 5 2 None # q"
    by blast
  have lt: "(2::int) < 5" by simp
  from short_write_terminates [OF d c lt] d c show ?thesis
    by simp
qed

subsection \<open>The deferred function\<close>

lemma iteration_calls:
  assumes "a \<in> set (fst (iteration dst src c wt err r))"
  shows "(\<forall>v. a \<noteq> StoreStop v) \<and> (\<forall>ch x. a \<noteq> Send ch x)"
  using assms
  by (auto simp: iteration_def write_back_def Let_def split: prod.splits flow.splits if_splits)

lemma loop_calls:
  assumes "a \<in> set (fst (loop dst src c wt err rs))"
  shows "(\<forall>v. a \<noteq> StoreStop v) \<and> (\<forall>ch x. a \<noteq> Send ch x)"
proof -
  obtain calls out where lp: "loop dst src c wt err rs = (calls, out)"
    by (cases "loop dst src c wt err rs")
  with assms obtain p q where "calls = p @ a # q"
    by (auto simp: in_set_conv_decomp)
  with lp show ?thesis
  proof (cases rule: loop_call)
    case (1 e r rs1 p0 p1 q1 fl more)
    then have "a \<in> set (fst (iteration dst src c wt e r))" by simp
    then show ?thesis by (rule iteration_calls)
  qed
qed



subsection \<open>The snapshot of the stop flag\<close>

lemma iteration_LoadStop:
  assumes "fst (iteration dst src c wt err r) = p @ LoadStop v # q"
  shows "p = [] \<and> v = flag r \<and> (\<exists>nr er rest.
           q = (if v = 1 then [SetReadDeadline src copyTimeout] else []) @ Read src nr er # rest)"
  using assms
  by (auto simp: iteration_def write_back_def Let_def Cons_eq_append_conv append_eq_Cons_conv
      split: prod.splits flow.splits if_splits)

lemma iteration_Read:
  assumes "fst (iteration dst src c wt err r) = p @ Read s nr er # q"
  shows "s = src
    \<and> p = LoadStop (flag r) # (if flag r = 1 then [SetReadDeadline src copyTimeout] else [])"
  using assms
  by (auto simp: iteration_def write_back_def Let_def Cons_eq_append_conv append_eq_Cons_conv
      split: prod.splits flow.splits if_splits)

lemma loop_LoadStop:
  assumes "fst (loop dst src c wt err rs) = p @ LoadStop v # q"
  shows "\<exists>nr er rest.
           q = (if v = 1 then [SetReadDeadline src copyTimeout] else []) @ Read src nr er # rest"
proof -
  obtain calls out where lp: "loop dst src c wt err rs = (calls, out)"
    by (cases "loop dst src c wt err rs")
  with assms have "calls = p @ LoadStop v # q" by simp
  with lp show ?thesis
  proof (cases rule: loop_call)
    case (1 e r rs1 p0 p1 q1 fl more)
    from 1(1) have "fst (iteration dst src c wt e r) = p1 @ LoadStop v # q1" by simp
    from iteration_LoadStop [OF this] obtain nr1 er1 rest1 where
      "q1 = (if v = 1 then [SetReadDeadline src copyTimeout] else []) @ Read src nr1 er1 # rest1"
      by (elim conjE exE)
    with 1(3) have
      "q = (if v = 1 then [SetReadDeadline src copyTimeout] else []) @ Read src nr1 er1 # (rest1 @ more)"
      by simp
    then show ?thesis by - (rule exI)+
  qed
qed

lemma loop_Read:
  assumes "fst (loop dst src c wt err rs) = p @ Read s nr er # q"
  shows "s = src \<and> (\<exists>p0 v. p = p0 @ LoadStop v
            # (if v = 1 then [SetReadDeadline src copyTimeout] else []))"
proof -
  obtain calls out where lp: "loop dst src c wt err rs = (calls, out)"
    by (cases "loop dst src c wt err rs")
  with assms have "calls = p @ Read s nr er # q" by simp
  with lp show ?thesis
  proof (cases rule: loop_call)
    case (1 e r rs1 p0 p1 q1 fl more)
    from 1(1) have "fst (iteration dst src c wt e r) = p1 @ Read s nr er # q1" by simp
    from iteration_Read [OF this] have s: "s = src"
      and "p1 = LoadStop (flag r) # (if flag r = 1 then [SetReadDeadline src copyTimeout] else [])"
      by simp_all
    with 1(2) have "p = p0 @ LoadStop (flag r)
        # (if flag r = 1 then [SetReadDeadline src copyTimeout] else [])"
      by simp
    then have "\<exists>p0 v. p = p0 @ LoadStop v # (if v = 1 then [SetReadDeadline src copyTimeout] else [])"
      by - (rule exI)+
    with s show ?thesis by (rule conjI)
  qed
qed

text \<open>
  C8. Every read of \<open>doCopy\<close> is on the source and comes right after the load of the stop
  flag of its pass, with only the read deadline of \<open>copyTimeout\<close> on the source between them
  when the load returned 1; and every load is followed by exactly that: the deadline if it
  returned 1, then the read. So the first read after the flag was seen set runs under the
  drain deadline.
\<close>

theorem snapshot_then_read:
  "(fst (doCopy dst src bufcap writeTimeout errCh answers) = p @ Read s nr er # q \<longrightarrow>
      s = src \<and> (\<exists>p0 v. p = p0 @ LoadStop v
                    # (if v = 1 then [SetReadDeadline src copyTimeout] else [])))
   \<and> (fst (doCopy dst src bufcap writeTimeout errCh answers) = p @ LoadStop v # q \<longrightarrow>
      (\<exists>nr er rest. q = (if v = 1 then [SetReadDeadline src copyTimeout] else [])
                        @ Read src nr er # rest))"
proof (rule conjI; rule impI)
  assume a: "fst (doCopy dst src bufcap writeTimeout errCh answers) = p @ Read s nr er # q"
  then obtain q1 where "fst (loop dst src bufcap writeTimeout None answers) = p @ Read s nr er # q1"
    by (rule doCopy_loop_call) simp
  then show "s = src \<and> (\<exists>p0 v. p = p0 @ LoadStop v
                    # (if v = 1 then [SetReadDeadline src copyTimeout] else []))"
    by (rule loop_Read)
next
  assume a: "fst (doCopy dst src bufcap writeTimeout errCh answers) = p @ LoadStop v # q"
  then obtain q1 where q1: "fst (loop dst src bufcap writeTimeout None answers) = p @ LoadStop v # q1"
    "q = q1 @ drop (length (fst (loop dst src bufcap writeTimeout None answers)))
                   (fst (doCopy dst src bufcap writeTimeout errCh answers))"
    by (rule doCopy_loop_call) simp
  from loop_LoadStop [OF q1(1)] obtain nr1 er1 rest1 where
    "q1 = (if v = 1 then [SetReadDeadline src copyTimeout] else []) @ Read src nr1 er1 # rest1"
    by (elim exE)
  with q1(2) have "q = (if v = 1 then [SetReadDeadline src copyTimeout] else [])
      @ Read src nr1 er1
      # (rest1 @ drop (length (fst (loop dst src bufcap writeTimeout None answers)))
                      (fst (doCopy dst src bufcap writeTimeout errCh answers)))"
    by simp
  then show "\<exists>nr er rest. q = (if v = 1 then [SetReadDeadline src copyTimeout] else [])
                        @ Read src nr er # rest"
    by - (rule exI)+
qed

theorem snapshot_then_read_witness:
  "fst (doCopy ConnIn ConnOut 4096 30000000000 InErrCh
          [\<lparr>flag = 0, rd = (4, None), wr = (4, None)\<rparr>,
           \<lparr>flag = 1, rd = (0, Some (Other ''read tcp 10.0.0.1:443: i/o timeout'')), wr = (0, None)\<rparr>])
     = [LoadStop 0, Read ConnOut 4 None, SetWriteDeadline ConnIn 30000000000, Write ConnIn 4 4 None]
       @ LoadStop 1
       # [SetReadDeadline ConnOut copyTimeout,
          Read ConnOut 0 (Some (Other ''read tcp 10.0.0.1:443: i/o timeout'')),
          StoreStop 1, SetReadDeadline ConnIn copyTimeout, Send InErrCh None]
   \<and> (\<exists>nr er rest.
         [SetReadDeadline ConnOut copyTimeout,
          Read ConnOut 0 (Some (Other ''read tcp 10.0.0.1:443: i/o timeout'')),
          StoreStop 1, SetReadDeadline ConnIn copyTimeout, Send InErrCh None]
         = (if (1::32 word) = 1 then [SetReadDeadline ConnOut copyTimeout] else [])
           @ Read ConnOut nr er # rest)"
proof -
  let ?e = "Other ''read tcp 10.0.0.1:443: i/o timeout''"
  let ?rs = "[\<lparr>flag = 0, rd = (4, None), wr = (4, None)\<rparr>,
              \<lparr>flag = 1, rd = (0, Some ?e), wr = (0, None)\<rparr>]"
  let ?p = "[LoadStop 0, Read ConnOut 4 None, SetWriteDeadline ConnIn 30000000000,
             Write ConnIn 4 4 None]"
  let ?q = "[SetReadDeadline ConnOut copyTimeout, Read ConnOut 0 (Some ?e),
             StoreStop 1, SetReadDeadline ConnIn copyTimeout, Send InErrCh None]"
  have it: "isTimeout ?e = Some True"
    by (simp add: isTimeout_suffix suffix_def)
  have d: "fst (doCopy ConnIn ConnOut 4096 30000000000 InErrCh ?rs) = ?p @ LoadStop 1 # ?q"
    by (simp add: doCopy_def iteration_def write_back_def check_read_error_def it deferred_def Let_def)
  have "fst (doCopy ConnIn ConnOut 4096 30000000000 InErrCh ?rs) = ?p @ LoadStop 1 # ?q \<longrightarrow>
      (\<exists>nr er rest. ?q = (if (1::32 word) = 1 then [SetReadDeadline ConnOut copyTimeout] else [])
                        @ Read ConnOut nr er # rest)"
    using snapshot_then_read [where dst = ConnIn and src = ConnOut and bufcap = 4096
        and writeTimeout = 30000000000 and errCh = InErrCh and answers = "?rs"
        and p = "?p" and q = "?q" and v = 1]
    by (rule conjunct2)
  then have "\<exists>nr er rest. ?q = (if (1::32 word) = 1 then [SetReadDeadline ConnOut copyTimeout] else [])
                        @ Read ConnOut nr er # rest"
    using d by (rule mp)
  with d show ?thesis
    by (rule conjI)
qed

subsection \<open>The checks of the read error\<close>

lemma iteration_checks:
  assumes "rd r = (nr, er)" and "nr \<le> 0 \<or> (nr \<le> bufcap \<and> fst (wr r) = nr)"
  shows "snd (iteration dst src bufcap wt None r) = check_read_error (flag r = 1) None er"
  using assms
  by (auto simp: iteration_def write_back_def Let_def split: prod.splits)

lemma loop_Cons:
  "loop dst src c wt err (r # rs) =
     (case snd (iteration dst src c wt err r) of
        Next err1 \<Rightarrow> (fst (iteration dst src c wt err r) @ fst (loop dst src c wt err1 rs),
                      snd (loop dst src c wt err1 rs))
      | Return err1 \<Rightarrow> (fst (iteration dst src c wt err r), Exited err1)
      | Panic err1 \<Rightarrow> (fst (iteration dst src c wt err r), Crashed err1))"
  by (simp split: prod.splits flow.splits)

text \<open>
  C3, as amended. In a pass that made no write, or whose write took all the bytes read, a
  non-nil read error is checked as follows: \<open>io.EOF\<close> ends the loop with a nil error; an
  error \<open>isTimeout\<close> accepts ends the loop with a nil error if the snapshot of the stop flag
  of this pass was 1, and otherwise the loop goes on to its next pass; any other error ends
  the loop with that error.
\<close>

theorem read_error_classification:
  assumes "rd r = (nr, Some e)"
    and "nr \<le> 0 \<or> (nr \<le> bufcap \<and> fst (wr r) = nr)"
  shows "loop dst src bufcap writeTimeout None (r # rs) =
     (if e = EOF then (fst (iteration dst src bufcap writeTimeout None r), Exited None)
      else if isTimeout e = Some True then
        (if flag r = 1 then (fst (iteration dst src bufcap writeTimeout None r), Exited None)
         else (fst (iteration dst src bufcap writeTimeout None r)
                 @ fst (loop dst src bufcap writeTimeout None rs),
               snd (loop dst src bufcap writeTimeout None rs)))
      else (fst (iteration dst src bufcap writeTimeout None r), Exited (Some e)))"
proof -
  have c: "snd (iteration dst src bufcap writeTimeout None r)
             = check_read_error (flag r = 1) None (Some e)"
    using assms by (rule iteration_checks)
  obtain b where b: "isTimeout e = Some b"
    using isTimeout_total [of e] by auto
  show ?thesis
    unfolding loop_Cons c
    by (cases b) (simp_all add: check_read_error_def b)
qed

theorem read_error_classification_witness:
  "rd \<lparr>flag = 0, rd = (0, Some (Other ''read tcp 10.0.0.1:443: i/o timeout'')), wr = (0, None)\<rparr>
     = (0, Some (Other ''read tcp 10.0.0.1:443: i/o timeout''))
   \<and> loop ConnOut ConnIn 4096 30000000000 None
        [\<lparr>flag = 0, rd = (0, Some (Other ''read tcp 10.0.0.1:443: i/o timeout'')), wr = (0, None)\<rparr>,
         \<lparr>flag = 0, rd = (0, Some (Other ''read tcp 10.0.0.1:443: connection reset by peer'')),
           wr = (0, None)\<rparr>]
     = ([LoadStop 0, Read ConnIn 0 (Some (Other ''read tcp 10.0.0.1:443: i/o timeout'')),
         LoadStop 0, Read ConnIn 0 (Some (Other ''read tcp 10.0.0.1:443: connection reset by peer''))],
        Exited (Some (Other ''read tcp 10.0.0.1:443: connection reset by peer'')))"
proof -
  let ?t = "Other ''read tcp 10.0.0.1:443: i/o timeout''"
  let ?f = "Other ''read tcp 10.0.0.1:443: connection reset by peer''"
  let ?r1 = "\<lparr>flag = 0, rd = (0::int, Some ?t), wr = (0::int, None)\<rparr>"
  let ?r2 = "\<lparr>flag = 0, rd = (0::int, Some ?f), wr = (0::int, None)\<rparr>"
  have t: "isTimeout ?t = Some True" and f: "isTimeout ?f = Some False"
    by (simp_all add: isTimeout_suffix suffix_def)
  have h1: "rd ?r1 = (0, Some ?t)" and h2: "rd ?r2 = (0, Some ?f)"
    by simp_all
  have g: "(0::int) \<le> 0 \<or> ((0::int) \<le> 4096 \<and> fst (wr ?r1) = 0)"
    "(0::int) \<le> 0 \<or> ((0::int) \<le> 4096 \<and> fst (wr ?r2) = 0)"
    by simp_all
  have i1: "fst (iteration ConnOut ConnIn 4096 30000000000 None ?r1) = [LoadStop 0, Read ConnIn 0 (Some ?t)]"
    and i2: "fst (iteration ConnOut ConnIn 4096 30000000000 None ?r2) = [LoadStop 0, Read ConnIn 0 (Some ?f)]"
    by (simp_all add: iteration_def)
  have "loop ConnOut ConnIn 4096 30000000000 None [?r1, ?r2]
    = ([LoadStop 0, Read ConnIn 0 (Some ?t), LoadStop 0, Read ConnIn 0 (Some ?f)], Exited (Some ?f))"
    unfolding read_error_classification [of ?r1 0 ?t 4096 ConnOut ConnIn 30000000000 "[?r2]", OF h1 g(1)]
      read_error_classification [of ?r2 0 ?f 4096 ConnOut ConnIn 30000000000 "[]", OF h2 g(2)]
    by (simp add: t f i1 i2)
  with h1 show ?thesis by simp
qed

text \<open>
  C3, as stated, fails when the read returns bytes together with \<open>io.EOF\<close> and the write of
  those bytes is short: the short write is tested first, and the goroutine ends with
  \<open>io.ErrShortWrite\<close>, not with a nil error.
\<close>

theorem short_write_before_read_error:
  "doCopy ConnOut ConnIn 4096 30000000000 OutErrCh
     [\<lparr>flag = 0, rd = (3, Some EOF), wr = (2, None)\<rparr>]
   = ([LoadStop 0, Read ConnIn 3 (Some EOF), SetWriteDeadline ConnOut 30000000000,
       Write ConnOut 3 2 None, StoreStop 1, SetReadDeadline ConnOut 1000000000,
       Send OutErrCh (Some ErrShortWrite)],
      Exited (Some ErrShortWrite))"
  by (simp add: doCopy_def iteration_def write_back_def deferred_def copyTimeout_def)

subsection \<open>The error of a write\<close>

lemma iteration_write_error:
  assumes "flag a = flag b" "rd a = rd b" "fst (wr a) = fst (wr b)"
  shows "snd (iteration dst src c wt None a) = snd (iteration dst src c wt None b)"
proof -
  obtain nw ewa ewb where "wr a = (nw, ewa)" "wr b = (nw, ewb)"
    using assms(3) by (cases "wr a"; cases "wr b") auto
  with assms(1,2) show ?thesis
    by (simp add: iteration_def write_back_def Let_def split: prod.splits)
qed

lemma loop_write_error:
  assumes "list_all2 (\<lambda>a b. flag a = flag b \<and> rd a = rd b \<and> fst (wr a) = fst (wr b)) rs rs'"
  shows "snd (loop dst src c wt None rs) = snd (loop dst src c wt None rs')"
  using assms
proof (induction rule: list_all2_induct)
  case Nil
  show ?case by simp
next
  case (Cons a as b bs)
  from Cons.hyps(1) have s: "snd (iteration dst src c wt None a) = snd (iteration dst src c wt None b)"
    by (intro iteration_write_error) simp_all
  show ?case
  proof (cases "snd (iteration dst src c wt None b)")
    case (Next e1)
    then have "e1 = None"
      using iteration_Next_None [of dst src c wt b "fst (iteration dst src c wt None b)" e1]
      by (simp add: prod_eq_iff)
    with Next s Cons.IH show ?thesis
      unfolding loop_Cons by simp
  next
    case (Return e1)
    with s show ?thesis unfolding loop_Cons by simp
  next
    case (Panic e1)
    with s show ?thesis unfolding loop_Cons by simp
  qed
qed

lemma doCopy_outcome: "snd (doCopy dst src c wt ch rs) = snd (loop dst src c wt None rs)"
  by (simp add: doCopy_def split: prod.splits outcome.splits)

text \<open>
  C10, as amended. When a write returns a non-nil error together with the full number of
  bytes, the error is dropped: the pass goes on to the checks of the read error with \<^verbatim>\<open>err\<close>
  still nil, so the loop goes on to its next pass when the read returned no error, and the
  way the goroutine ends is the same as if the write had returned no error.
\<close>

theorem write_error_discarded:
  assumes "rd r = (nr, er)" and "wr r = (nr, Some ew)" and "0 < nr" and "nr \<le> bufcap"
  shows "snd (iteration dst src bufcap writeTimeout None r)
           = check_read_error (flag r = 1) None er
    \<and> (er = None \<longrightarrow>
         loop dst src bufcap writeTimeout None (r # rs) =
           (fst (iteration dst src bufcap writeTimeout None r)
              @ fst (loop dst src bufcap writeTimeout None rs),
            snd (loop dst src bufcap writeTimeout None rs)))
    \<and> snd (doCopy dst src bufcap writeTimeout errCh (before @ r # rs))
        = snd (doCopy dst src bufcap writeTimeout errCh (before @ r\<lparr>wr := (nr, None)\<rparr> # rs))"
proof (intro conjI impI)
  show c: "snd (iteration dst src bufcap writeTimeout None r)
             = check_read_error (flag r = 1) None er"
    using iteration_checks [of r nr er bufcap dst src writeTimeout] assms by simp
  show "loop dst src bufcap writeTimeout None (r # rs) =
           (fst (iteration dst src bufcap writeTimeout None r)
              @ fst (loop dst src bufcap writeTimeout None rs),
            snd (loop dst src bufcap writeTimeout None rs))" if "er = None"
    unfolding loop_Cons c using that by (simp add: check_read_error_def)
  have "list_all2 (\<lambda>a b. flag a = flag b \<and> rd a = rd b \<and> fst (wr a) = fst (wr b))
          (before @ r # rs) (before @ r\<lparr>wr := (nr, None)\<rparr> # rs)"
    using assms(2) by (intro list_all2_appendI list_all2_refl list.rel_intros) simp_all
  then show "snd (doCopy dst src bufcap writeTimeout errCh (before @ r # rs))
        = snd (doCopy dst src bufcap writeTimeout errCh (before @ r\<lparr>wr := (nr, None)\<rparr> # rs))"
    unfolding doCopy_outcome by (rule loop_write_error)
qed

theorem write_error_discarded_witness:
  "rd \<lparr>flag = 0, rd = (5, None), wr = (5, Some (Other ''write tcp 10.0.0.1:443: broken pipe''))\<rparr>
     = (5, None)
   \<and> wr \<lparr>flag = 0, rd = (5, None), wr = (5, Some (Other ''write tcp 10.0.0.1:443: broken pipe''))\<rparr>
     = (5, Some (Other ''write tcp 10.0.0.1:443: broken pipe''))
   \<and> (0::int) < 5 \<and> (5::int) \<le> 4096
   \<and> snd (iteration ConnOut ConnIn 4096 30000000000 None
        \<lparr>flag = 0, rd = (5, None), wr = (5, Some (Other ''write tcp 10.0.0.1:443: broken pipe''))\<rparr>)
     = Next None
   \<and> snd (doCopy ConnOut ConnIn 4096 30000000000 OutErrCh
        ([] @ \<lparr>flag = 0, rd = (5, None), wr = (5, Some (Other ''write tcp 10.0.0.1:443: broken pipe''))\<rparr>
           # [\<lparr>flag = 0, rd = (0, Some EOF), wr = (0, None)\<rparr>]))
     = Exited None"
proof -
  let ?e = "Other ''write tcp 10.0.0.1:443: broken pipe''"
  let ?r = "\<lparr>flag = 0, rd = (5::int, None), wr = (5::int, Some ?e)\<rparr>"
  have h: "rd ?r = (5, None)" "wr ?r = (5, Some ?e)" "(0::int) < 5" "(5::int) \<le> 4096"
    by simp_all
  have n: "snd (doCopy ConnOut ConnIn 4096 30000000000 OutErrCh
        ([] @ ?r\<lparr>wr := (5, None)\<rparr> # [\<lparr>flag = 0, rd = (0, Some EOF), wr = (0, None)\<rparr>]))
     = Exited None"
    by (simp add: doCopy_def iteration_def write_back_def check_read_error_def)
  from write_error_discarded [OF h, of ConnOut ConnIn 30000000000
      "[\<lparr>flag = 0, rd = (0, Some EOF), wr = (0, None)\<rparr>]" OutErrCh "[]"] n h
  show ?thesis
    by (simp add: check_read_error_def)
qed

text \<open>
  C10, as stated, fails when the read that gave the bytes also returned \<open>io.EOF\<close>: after the
  write the loop ends, and the source is not read again although it would answer.
\<close>

theorem write_error_then_end_of_stream:
  "doCopy ConnOut ConnIn 4096 30000000000 OutErrCh
     [\<lparr>flag = 0, rd = (3, Some EOF), wr = (3, Some (Other ''write tcp 10.0.0.1:443: broken pipe''))\<rparr>,
      \<lparr>flag = 0, rd = (1, None), wr = (1, None)\<rparr>]
   = ([LoadStop 0, Read ConnIn 3 (Some EOF), SetWriteDeadline ConnOut 30000000000,
       Write ConnOut 3 3 (Some (Other ''write tcp 10.0.0.1:443: broken pipe'')),
       StoreStop 1, SetReadDeadline ConnOut 1000000000, Send OutErrCh None],
      Exited None)"
  by (simp add: doCopy_def iteration_def write_back_def check_read_error_def deferred_def
      copyTimeout_def)

text \<open>
  C1. A write that takes all the bytes it was given and returns an error does not end the
  goroutine, and its error is not the result of \<open>doCopy\<close>: line 51 assigns the error of the
  write only when \<^verbatim>\<open>err\<close> is already non-nil, which it never is inside the loop. Here the
  source gives 5 bytes, the write takes the 5 bytes and returns an error, and the goroutine
  reads again, finds the end of the stream and reports nil. (A write that takes fewer bytes
  ends the goroutine with \<open>io.ErrShortWrite\<close>, as lines 54 to 57 are written to do.)
\<close>

theorem write_error_not_reported:
  "doCopy ConnOut ConnIn 4096 30000000000 OutErrCh
     [\<lparr>flag = 0, rd = (5, None), wr = (5, Some (Other ''write tcp 10.0.0.1:443: broken pipe''))\<rparr>,
      \<lparr>flag = 0, rd = (0, Some EOF), wr = (0, None)\<rparr>]
   = ([LoadStop 0, Read ConnIn 5 None, SetWriteDeadline ConnOut 30000000000,
       Write ConnOut 5 5 (Some (Other ''write tcp 10.0.0.1:443: broken pipe'')),
       LoadStop 0, Read ConnIn 0 (Some EOF),
       StoreStop 1, SetReadDeadline ConnOut 1000000000, Send OutErrCh None],
      Exited None)"
  by (simp add: doCopy_def iteration_def write_back_def check_read_error_def deferred_def
      copyTimeout_def)

subsection \<open>The calls that touch the shared state\<close>

lemma doCopy_Send:
  assumes "suffix (Send c e # q) (fst (doCopy dst src cap wt ch rs))"
  shows "c = ch \<and> q = [] \<and> reported (snd (doCopy dst src cap wt ch rs)) = Some e"
proof -
  from assms obtain p where p: "fst (doCopy dst src cap wt ch rs) = p @ Send c e # q"
    by (auto simp: suffix_def)
  show ?thesis
  proof (cases rule: doCopy_cases [of dst src cap wt rs ch])
    case (running lc)
    with p have "Send c e \<in> set (fst (loop dst src cap wt None rs))" by simp
    from loop_calls [OF this] show ?thesis by simp
  next
    case (left lc lo e1)
    with p have "p @ Send c e # q = lc @ deferred dst ch e1" by simp
    then show ?thesis
    proof (cases rule: call_in_append)
      case (right vs)
      with left show ?thesis
        by (simp add: deferred_def append_eq_Cons_conv Cons_eq_append_conv)
    next
      case (left vs)
      with \<open>loop dst src cap wt None rs = (lc, lo)\<close>
      have "Send c e \<in> set (fst (loop dst src cap wt None rs))" by simp
      from loop_calls [OF this] show ?thesis by simp
    qed
  qed
qed

lemma doCopy_StoreStop:
  assumes "suffix (StoreStop v # q) (fst (doCopy dst src cap wt ch rs))"
  shows "v = 1 \<and> (\<exists>e. q = [SetReadDeadline dst copyTimeout, Send ch e])"
proof -
  from assms obtain p where p: "fst (doCopy dst src cap wt ch rs) = p @ StoreStop v # q"
    by (auto simp: suffix_def)
  show ?thesis
  proof (cases rule: doCopy_cases [of dst src cap wt rs ch])
    case (running lc)
    with p have "StoreStop v \<in> set (fst (loop dst src cap wt None rs))" by simp
    from loop_calls [OF this] show ?thesis by simp
  next
    case (left lc lo e1)
    with p have "p @ StoreStop v # q = lc @ deferred dst ch e1" by simp
    then show ?thesis
    proof (cases rule: call_in_append)
      case (right vs)
      then show ?thesis
        by (auto simp: deferred_def append_eq_Cons_conv Cons_eq_append_conv)
    next
      case (left vs)
      with \<open>loop dst src cap wt None rs = (lc, lo)\<close>
      have "StoreStop v \<in> set (fst (loop dst src cap wt None rs))" by simp
      from loop_calls [OF this] show ?thesis by simp
    qed
  qed
qed

lemma doCopy_Read:
  assumes "Read c nr er \<in> set (fst (doCopy dst src cap wt ch rs))"
  shows "c = src"
proof -
  from assms obtain p q where "fst (doCopy dst src cap wt ch rs) = p @ Read c nr er # q"
    by (auto simp: in_set_conv_decomp)
  then obtain q1 where "fst (loop dst src cap wt None rs) = p @ Read c nr er # q1"
    by (rule doCopy_loop_call) simp
  from loop_Read [OF this] show ?thesis by simp
qed

lemma coherent_start:
  "coherent capOut capIn wt aOut aIn (BidiCopy capOut capIn wt aOut aIn)"
  by (simp add: coherent_def BidiCopy_def)

subsection \<open>Every reachable state is coherent\<close>

lemma perform_other:
  assumes "perform a s = Some s1" and "\<And>c e. a \<noteq> Send c e"
  shows "outErrCh s1 = outErrCh s \<and> inErrCh s1 = inErrCh s \<and> toOut s1 = toOut s
         \<and> toIn s1 = toIn s \<and> caller s1 = caller s"
  using assms by (cases a) (auto split: if_splits)

lemma perform_Send:
  assumes "perform (Send c e) s = Some s1"
  shows "toOut s1 = toOut s \<and> toIn s1 = toIn s \<and> caller s1 = caller s \<and> stop s1 = stop s
    \<and> (case c of OutErrCh \<Rightarrow> outErrCh s = [] \<and> outErrCh s1 = [e] \<and> inErrCh s1 = inErrCh s
                 | InErrCh \<Rightarrow> inErrCh s = [] \<and> inErrCh s1 = [e] \<and> outErrCh s1 = outErrCh s)"
  using assms by (cases c) (auto split: if_splits)

lemma fire_coherent:
  assumes c: "coherent capOut capIn wt aOut aIn s" and f: "fire w s = Some s1"
  shows "coherent capOut capIn wt aOut aIn s1"
proof (cases w)
  case CopierOut
  with f obtain a rest where t: "toOut s = a # rest"
    and p: "perform a (s\<lparr>toOut := rest\<rparr>) = Some s1"
    by (auto split: list.splits)
  from c t have suf: "suffix (a # rest) (fst (doCopy ConnOut ConnIn capIn wt OutErrCh aOut))"
    and ch: "outErrCh s = []" and cl: "caller s = RecvOut"
    by (auto simp: coherent_def Let_def split: list.splits caller.splits)
  from suf have suf1: "suffix rest (fst (doCopy ConnOut ConnIn capIn wt OutErrCh aOut))"
    by (rule suffix_ConsD)
  show ?thesis
  proof (cases "\<exists>c e. a = Send c e")
    case True
    then obtain c1 e where a: "a = Send c1 e" by blast
    from doCopy_Send [OF suf [unfolded a]] have
      "c1 = OutErrCh" "rest = []"
      "reported (snd (doCopy ConnOut ConnIn capIn wt OutErrCh aOut)) = Some e"
      by simp_all
    with perform_Send [OF p [unfolded a]] c cl show ?thesis
      by (simp add: coherent_def Let_def)
  next
    case False
    then have "\<And>c e. a \<noteq> Send c e" by blast
    from perform_other [OF p this] c suf1 ch cl show ?thesis
      by (simp add: coherent_def Let_def)
  qed
next
  case CopierIn
  with f obtain a rest where t: "toIn s = a # rest"
    and p: "perform a (s\<lparr>toIn := rest\<rparr>) = Some s1"
    by (auto split: list.splits)
  from c t have suf: "suffix (a # rest) (fst (doCopy ConnIn ConnOut capOut wt InErrCh aIn))"
    and ch: "inErrCh s = []" and cl: "\<forall>x y. caller s \<noteq> Returned x y"
    by (auto simp: coherent_def Let_def split: list.splits caller.splits)
  from suf have suf1: "suffix rest (fst (doCopy ConnIn ConnOut capOut wt InErrCh aIn))"
    by (rule suffix_ConsD)
  show ?thesis
  proof (cases "\<exists>c e. a = Send c e")
    case True
    then obtain c1 e where a: "a = Send c1 e" by blast
    from doCopy_Send [OF suf [unfolded a]] have
      "c1 = InErrCh" "rest = []"
      "reported (snd (doCopy ConnIn ConnOut capOut wt InErrCh aIn)) = Some e"
      by simp_all
    with perform_Send [OF p [unfolded a]] c cl show ?thesis
      by (cases "caller s") (auto simp: coherent_def Let_def split: list.splits)
  next
    case False
    then have "\<And>c e. a \<noteq> Send c e" by blast
    from perform_other [OF p this] c suf1 ch cl show ?thesis
      by (cases "caller s") (auto simp: coherent_def Let_def split: list.splits)
  qed
next
  case Caller
  show ?thesis
  proof (cases "caller s")
    case RecvOut
    with f Caller obtain e q where "outErrCh s = e # q"
      "s1 = s\<lparr>outErrCh := q, caller := RecvIn e\<rparr>"
      by (auto split: list.splits)
    with c RecvOut show ?thesis
      by (auto simp: coherent_def Let_def split: list.splits)
  next
    case (RecvIn a)
    with f Caller obtain e q where "inErrCh s = e # q"
      "s1 = s\<lparr>inErrCh := q, caller := Returned a e\<rparr>"
      by (auto split: list.splits)
    with c RecvIn show ?thesis
      by (auto simp: coherent_def Let_def split: list.splits)
  next
    case (Returned a b)
    with f Caller show ?thesis by simp
  qed
qed

lemma exec_coherent:
  assumes "exec s sched = Some ss" and "coherent capOut capIn wt aOut aIn s"
  shows "\<forall>s1 \<in> set ss. coherent capOut capIn wt aOut aIn s1"
  using assms
proof (induction sched arbitrary: s ss)
  case Nil
  then show ?case by auto
next
  case (Cons w ws)
  from Cons.prems(1) obtain s1 ss1 where f: "fire w s = Some s1"
    and e: "exec s1 ws = Some ss1" and ss: "ss = s # ss1"
    by (auto split: option.splits)
  from fire_coherent [OF Cons.prems(2) f] Cons.IH [OF e] Cons.prems(2) ss show ?case
    by simp
qed

subsection \<open>No reported error is lost\<close>










subsection \<open>What BidiCopy returns\<close>



subsection \<open>The stop flag\<close>

lemma exec_nth:
  assumes "exec s sched = Some ss"
  shows "length ss = Suc (length sched) \<and> ss ! 0 = s
         \<and> (\<forall>i < length sched. fire (sched ! i) (ss ! i) = Some (ss ! Suc i))"
  using assms
proof (induction sched arbitrary: s ss)
  case Nil
  then show ?case by auto
next
  case (Cons w ws)
  from Cons.prems obtain s1 ss1 where f: "fire w s = Some s1"
    and e: "exec s1 ws = Some ss1" and ss: "ss = s # ss1"
    by (auto split: option.splits)
  from Cons.IH [OF e] have ih: "length ss1 = Suc (length ws)" "ss1 ! 0 = s1"
    "\<forall>i < length ws. fire (ws ! i) (ss1 ! i) = Some (ss1 ! Suc i)"
    by simp_all
  have "fire ((w # ws) ! i) (ss ! i) = Some (ss ! Suc i)" if "i < length (w # ws)" for i
  proof (cases i)
    case 0
    with f ih(2) ss show ?thesis by simp
  next
    case (Suc j)
    with that ih(3) ss show ?thesis by simp
  qed
  with ih(1) ss show ?case by simp
qed

lemma perform_stop:
  assumes "perform a s = Some s1" and "stop s1 \<noteq> stop s"
  shows "a = StoreStop (stop s1)"
proof (cases "\<exists>c e. a = Send c e")
  case True
  then obtain c e where "a = Send c e" by blast
  with assms perform_Send [of c e s s1] show ?thesis by simp
next
  case False
  with assms show ?thesis by (cases a) (auto split: if_splits)
qed

lemma fire_stop:
  assumes c: "coherent capOut capIn wt aOut aIn s" and f: "fire w s = Some s1"
    and n: "stop s1 \<noteq> stop s"
  shows "stop s1 = 1
    \<and> (w = CopierOut \<and> (\<exists>e. toOut s1 = [SetReadDeadline ConnOut copyTimeout, Send OutErrCh e])
       \<or> w = CopierIn \<and> (\<exists>e. toIn s1 = [SetReadDeadline ConnIn copyTimeout, Send InErrCh e]))"
proof (cases w)
  case CopierOut
  with f obtain a rest where t: "toOut s = a # rest"
    and p: "perform a (s\<lparr>toOut := rest\<rparr>) = Some s1"
    by (auto split: list.splits)
  from perform_stop [OF p] n have a: "a = StoreStop (stop s1)" by simp
  from c t a have "suffix (StoreStop (stop s1) # rest)
      (fst (doCopy ConnOut ConnIn capIn wt OutErrCh aOut))"
    by (simp add: coherent_def Let_def)
  from doCopy_StoreStop [OF this] obtain e where "stop s1 = 1"
    "rest = [SetReadDeadline ConnOut copyTimeout, Send OutErrCh e]"
    by blast
  moreover from perform_other [OF p] a have "toOut s1 = rest" by simp
  ultimately show ?thesis using CopierOut by simp
next
  case CopierIn
  with f obtain a rest where t: "toIn s = a # rest"
    and p: "perform a (s\<lparr>toIn := rest\<rparr>) = Some s1"
    by (auto split: list.splits)
  from perform_stop [OF p] n have a: "a = StoreStop (stop s1)" by simp
  from c t a have "suffix (StoreStop (stop s1) # rest)
      (fst (doCopy ConnIn ConnOut capOut wt InErrCh aIn))"
    by (simp add: coherent_def Let_def)
  from doCopy_StoreStop [OF this] obtain e where "stop s1 = 1"
    "rest = [SetReadDeadline ConnIn copyTimeout, Send InErrCh e]"
    by blast
  moreover from perform_other [OF p] a have "toIn s1 = rest" by simp
  ultimately show ?thesis using CopierIn by simp
next
  case Caller
  with f n show ?thesis
    by (auto split: caller.splits list.splits)
qed

lemma stop_history:
  assumes "exec s sched = Some ss" and "coherent capOut capIn wt aOut aIn s"
  shows "(stop s = 1 \<longrightarrow> map stop ss = replicate (length ss) 1)
       \<and> (stop s = 0 \<longrightarrow> (\<exists>k m. map stop ss = replicate (Suc k) 0 @ replicate m 1))"
  using assms
proof (induction sched arbitrary: s ss)
  case Nil
  then have ss: "ss = [s]" by auto
  have "stop s = 0 \<Longrightarrow> map stop [s] = replicate (Suc 0) 0 @ replicate 0 1"
    by simp
  then have "stop s = 0 \<longrightarrow> (\<exists>k m. map stop [s] = replicate (Suc k) 0 @ replicate m 1)"
    by blast
  then show ?case unfolding ss by simp
next
  case (Cons w ws)
  from Cons.prems(1) obtain s1 ss1 where f: "fire w s = Some s1"
    and e: "exec s1 ws = Some ss1" and ss: "ss = s # ss1"
    by (auto split: option.splits)
  have c1: "coherent capOut capIn wt aOut aIn s1"
    using Cons.prems(2) f by (rule fire_coherent)
  note ih = Cons.IH [OF e c1]
  have s1: "stop s1 = stop s \<or> stop s1 = 1"
    using fire_stop [OF Cons.prems(2) f] by blast
  show ?case
  proof (intro conjI impI)
    assume "stop s = 1"
    with s1 ih ss show "map stop ss = replicate (length ss) 1" by auto
  next
    assume z: "stop s = 0"
    from s1 show "\<exists>k m. map stop ss = replicate (Suc k) 0 @ replicate m 1"
    proof
      assume "stop s1 = stop s"
      with z ih obtain k m where "map stop ss1 = replicate (Suc k) 0 @ replicate m 1"
        by auto
      with z ss have "map stop ss = replicate (Suc (Suc k)) 0 @ replicate m 1"
        by simp
      then show ?thesis by blast
    next
      assume "stop s1 = 1"
      with ih have "map stop ss1 = replicate (length ss1) 1" by simp
      with z ss have "map stop ss = replicate (Suc 0) 0 @ replicate (length ss1) 1"
        by simp
      then show ?thesis by blast
    qed
  qed
qed

lemma doCopy_stores:
  assumes "StoreStop v \<in> set (fst (doCopy dst src cap wt ch rs))"
  shows "v = 1"
proof -
  from assms obtain p q where "fst (doCopy dst src cap wt ch rs) = p @ StoreStop v # q"
    by (auto simp: in_set_conv_decomp)
  then have "suffix (StoreStop v # q) (fst (doCopy dst src cap wt ch rs))"
    by (simp add: suffix_def)
  from doCopy_StoreStop [OF this] show ?thesis by simp
qed

lemma fire_LoadStop:
  assumes "fire w s = Some s1"
    and "w = CopierOut \<and> toOut s = LoadStop v # rest \<or> w = CopierIn \<and> toIn s = LoadStop v # rest"
  shows "v = stop s"
  using assms by (auto split: if_splits)

text \<open>
  C5. In every execution of \<open>BidiCopy\<close> the stop flag starts as 0, every store the
  goroutines make writes 1, the values the flag takes are some 0s followed by 1s only (at
  most one change, from 0 to 1, and never back), and every load a goroutine makes, one at
  the start of each pass, returns the value the flag holds at that moment.
\<close>

theorem stop_flag_monotone:
  assumes "exec (BidiCopy capOut capIn writeTimeout answersOut answersIn) sched = Some ss"
  shows "stop (BidiCopy capOut capIn writeTimeout answersOut answersIn) = 0
    \<and> (\<forall>v. StoreStop v \<in> set (toOut (BidiCopy capOut capIn writeTimeout answersOut answersIn))
                          \<union> set (toIn (BidiCopy capOut capIn writeTimeout answersOut answersIn))
            \<longrightarrow> v = 1)
    \<and> (\<exists>k m. map stop ss = replicate (Suc k) 0 @ replicate m 1)
    \<and> (\<forall>i v rest. i < length sched
            \<and> (sched ! i = CopierOut \<and> toOut (ss ! i) = LoadStop v # rest
               \<or> sched ! i = CopierIn \<and> toIn (ss ! i) = LoadStop v # rest)
            \<longrightarrow> v = stop (ss ! i))"
proof (intro conjI allI impI)
  show z: "stop (BidiCopy capOut capIn writeTimeout answersOut answersIn) = 0"
    by (simp add: BidiCopy_def)
  show "v = 1"
    if "StoreStop v \<in> set (toOut (BidiCopy capOut capIn writeTimeout answersOut answersIn))
                      \<union> set (toIn (BidiCopy capOut capIn writeTimeout answersOut answersIn))" for v
    using that doCopy_stores by (auto simp: BidiCopy_def)
  show "\<exists>k m. map stop ss = replicate (Suc k) 0 @ replicate m 1"
    using stop_history [OF assms coherent_start] z by simp
  show "v = stop (ss ! i)"
    if "i < length sched
        \<and> (sched ! i = CopierOut \<and> toOut (ss ! i) = LoadStop v # rest
           \<or> sched ! i = CopierIn \<and> toIn (ss ! i) = LoadStop v # rest)" for i v rest
  proof -
    from that exec_nth [OF assms] have "fire (sched ! i) (ss ! i) = Some (ss ! Suc i)"
      by simp
    from fire_LoadStop [OF this, of v rest] that show ?thesis by blast
  qed
qed


theorem stop_flag_monotone_witness:
  "\<exists>ss. exec (BidiCopy 4096 4096 30000000000
             [\<lparr>flag = 0, rd = (0, Some EOF), wr = (0, None)\<rparr>]
             [\<lparr>flag = 1, rd = (0, Some (Other ''read tcp 10.0.0.1:443: i/o timeout'')),
               wr = (0, None)\<rparr>])
          [CopierOut, CopierOut, CopierOut, CopierIn, CopierIn, CopierIn, CopierOut, CopierOut,
           CopierIn, CopierIn, CopierIn, Caller, Caller] = Some ss
     \<and> stop (hd ss) = 0 \<and> stop (last ss) = 1
     \<and> (\<exists>k m. map stop ss = replicate (Suc k) 0 @ replicate m 1)"
proof -
  let ?e = "Other ''read tcp 10.0.0.1:443: i/o timeout''"
  let ?aOut = "[\<lparr>flag = 0, rd = (0::int, Some EOF), wr = (0::int, None)\<rparr>]"
  let ?aIn = "[\<lparr>flag = 1, rd = (0::int, Some ?e), wr = (0::int, None)\<rparr>]"
  let ?sched = "[CopierOut, CopierOut, CopierOut, CopierIn, CopierIn, CopierIn, CopierOut,
                 CopierOut, CopierIn, CopierIn, CopierIn, Caller, Caller]"
  have it: "isTimeout ?e = Some True"
    by (simp add: isTimeout_suffix suffix_def)
  have "\<exists>ss. exec (BidiCopy 4096 4096 30000000000 ?aOut ?aIn) ?sched = Some ss
          \<and> stop (hd ss) = 0 \<and> stop (last ss) = 1"
    by (simp add: BidiCopy_def doCopy_def iteration_def check_read_error_def it deferred_def)
  then obtain ss where e: "exec (BidiCopy 4096 4096 30000000000 ?aOut ?aIn) ?sched = Some ss"
    and h: "stop (hd ss) = 0 \<and> stop (last ss) = 1"
    by (elim exE conjE) simp
  have m: "\<exists>k m. map stop ss = replicate (Suc k) 0 @ replicate m 1"
    by (rule conjunct1 [OF conjunct2 [OF conjunct2 [OF stop_flag_monotone [OF e]]]])
  show ?thesis
    by (intro exI [of _ ss] conjI e conjunct1 [OF h] conjunct2 [OF h] m)
qed

subsection \<open>The first goroutine to stop\<close>

text \<open>
  C7, as amended. The goroutine whose move changes the stop flag from 0 to 1, the first to
  leave its loop, has exactly two calls left after that store: the read deadline of
  \<open>copyTimeout\<close> on its destination, which is the connection every read of the other
  goroutine is made on, and the send of its error.
\<close>

theorem first_to_stop_arms_destination:
  assumes "exec (BidiCopy capOut capIn writeTimeout answersOut answersIn) sched = Some ss"
    and "i < length sched"
    and "stop (ss ! i) = 0"
    and "stop (ss ! Suc i) = 1"
  shows "(sched ! i = CopierOut
          \<and> (\<exists>e. toOut (ss ! Suc i) = [SetReadDeadline ConnOut copyTimeout, Send OutErrCh e])
          \<and> (\<forall>c nr er. Read c nr er
                 \<in> set (toIn (BidiCopy capOut capIn writeTimeout answersOut answersIn))
               \<longrightarrow> c = ConnOut))
       \<or> (sched ! i = CopierIn
          \<and> (\<exists>e. toIn (ss ! Suc i) = [SetReadDeadline ConnIn copyTimeout, Send InErrCh e])
          \<and> (\<forall>c nr er. Read c nr er
                 \<in> set (toOut (BidiCopy capOut capIn writeTimeout answersOut answersIn))
               \<longrightarrow> c = ConnIn))"
proof -
  from exec_nth [OF assms(1)] assms(2) have len: "i < length ss"
    and f: "fire (sched ! i) (ss ! i) = Some (ss ! Suc i)"
    by simp_all
  from len have "ss ! i \<in> set ss" by simp
  with exec_coherent [OF assms(1) coherent_start]
  have c: "coherent capOut capIn writeTimeout answersOut answersIn (ss ! i)"
    by blast
  from assms(3,4) have n: "stop (ss ! Suc i) \<noteq> stop (ss ! i)" by simp
  have rd: "\<forall>c nr er. Read c nr er
                 \<in> set (toIn (BidiCopy capOut capIn writeTimeout answersOut answersIn))
               \<longrightarrow> c = ConnOut"
    "\<forall>c nr er. Read c nr er
                 \<in> set (toOut (BidiCopy capOut capIn writeTimeout answersOut answersIn))
               \<longrightarrow> c = ConnIn"
    using doCopy_Read by (auto simp: BidiCopy_def)
  from fire_stop [OF c f n] rd show ?thesis
    by blast
qed


theorem first_to_stop_arms_destination_witness:
  "\<exists>ss. exec (BidiCopy 4096 4096 30000000000
             [\<lparr>flag = 0, rd = (0, Some EOF), wr = (0, None)\<rparr>]
             [\<lparr>flag = 1, rd = (0, Some (Other ''read tcp 10.0.0.1:443: i/o timeout'')),
               wr = (0, None)\<rparr>])
          [CopierOut, CopierOut, CopierOut, CopierIn, CopierIn, CopierIn, CopierOut, CopierOut,
           CopierIn, CopierIn, CopierIn, Caller, Caller] = Some ss
     \<and> (2::nat) < length [CopierOut, CopierOut, CopierOut, CopierIn, CopierIn, CopierIn,
                           CopierOut, CopierOut, CopierIn, CopierIn, CopierIn, Caller, Caller]
     \<and> stop (ss ! 2) = 0 \<and> stop (ss ! Suc 2) = 1
     \<and> toOut (ss ! Suc 2) = [SetReadDeadline ConnOut copyTimeout, Send OutErrCh None]"
proof -
  let ?e = "Other ''read tcp 10.0.0.1:443: i/o timeout''"
  let ?aOut = "[\<lparr>flag = 0, rd = (0::int, Some EOF), wr = (0::int, None)\<rparr>]"
  let ?aIn = "[\<lparr>flag = 1, rd = (0::int, Some ?e), wr = (0::int, None)\<rparr>]"
  let ?sched = "[CopierOut, CopierOut, CopierOut, CopierIn, CopierIn, CopierIn, CopierOut,
                 CopierOut, CopierIn, CopierIn, CopierIn, Caller, Caller]"
  have it: "isTimeout ?e = Some True"
    by (simp add: isTimeout_suffix suffix_def)
  have "\<exists>ss. exec (BidiCopy 4096 4096 30000000000 ?aOut ?aIn) ?sched = Some ss
          \<and> stop (ss ! 2) = 0 \<and> stop (ss ! Suc 2) = 1
          \<and> (\<forall>e. toOut (ss ! Suc 2) = [SetReadDeadline ConnOut copyTimeout, Send OutErrCh e]
                \<longrightarrow> e = None)"
    by (simp add: BidiCopy_def doCopy_def iteration_def check_read_error_def it deferred_def)
  then obtain ss where e: "exec (BidiCopy 4096 4096 30000000000 ?aOut ?aIn) ?sched = Some ss"
    and z: "stop (ss ! 2) = 0" and o: "stop (ss ! Suc 2) = 1"
    and n: "\<forall>e. toOut (ss ! Suc 2) = [SetReadDeadline ConnOut copyTimeout, Send OutErrCh e]
                \<longrightarrow> e = None"
    by blast
  have l: "(2::nat) < length ?sched" by simp
  have w: "?sched ! 2 = CopierOut" by simp
  from first_to_stop_arms_destination [OF e l z o] w
  have "\<exists>e. toOut (ss ! Suc 2) = [SetReadDeadline ConnOut copyTimeout, Send OutErrCh e]"
    by simp
  with n have "toOut (ss ! Suc 2) = [SetReadDeadline ConnOut copyTimeout, Send OutErrCh None]"
    by blast
  with e l z o show ?thesis
    by blast
qed

text \<open>
  C7, as stated, fails: a goroutine that reads from \<^verbatim>\<open>in\<close> and is the first to stop sets no
  read deadline on \<^verbatim>\<open>in\<close>, its source; the only deadline it sets is on \<^verbatim>\<open>out\<close>.
\<close>

theorem deadline_not_on_source:
  "doCopy ConnOut ConnIn 4096 30000000000 OutErrCh
     [\<lparr>flag = 0, rd = (0, Some EOF), wr = (0, None)\<rparr>]
   = ([LoadStop 0, Read ConnIn 0 (Some EOF), StoreStop 1,
       SetReadDeadline ConnOut 1000000000, Send OutErrCh None],
      Exited None)"
  by (simp add: doCopy_def iteration_def check_read_error_def deferred_def copyTimeout_def)

end
